theory Spec2Isabelle
  imports Main "HOL-Library.Word"
begin

section \<open>The scope delay queue of the GStreamer engine\<close>

text \<open>
  A shallow embedding of the scope subsystem of \<^verbatim>\<open>src/engines/gstengine.cpp\<close>: the delay
  queue of audio buffers, \<^verbatim>\<open>PruneScope\<close>, \<^verbatim>\<open>UpdateScope\<close>, \<^verbatim>\<open>scope\<close>, \<^verbatim>\<open>ClearScopeQ\<close> and the
  lifecycle functions that touch the queue or the build cursor.

  Conventions.
  \<^item> \<^verbatim>\<open>quint64\<close>/\<^verbatim>\<open>gint64\<close> values (time stamps, durations, the device position) are
    \<open>64 word\<close>; an unsigned comparison is \<open>\<le>\<close> on words, a signed one compares \<open>sint\<close>.
  \<^item> C \<^verbatim>\<open>int\<close> variables (\<^verbatim>\<open>channels\<close>, \<^verbatim>\<open>sz\<close>, \<^verbatim>\<open>frames\<close>, \<^verbatim>\<open>off\<close>, \<^verbatim>\<open>i\<close>, \<^verbatim>\<open>current_sample_\<close>)
    are \<open>int\<close>; the conversions between \<^verbatim>\<open>int\<close> and \<^verbatim>\<open>quint64\<close> in the offset
    computation are written out.
  \<^item> Undefined behaviour of the C++ (division by zero, an array access outside its
    bounds, dereferencing a null pipeline pointer) is a value of type \<open>error\<close>.
  \<^item> The trailing underscore of the member names is dropped.
  \<^item> \<^verbatim>\<open>SCOPESIZE\<close> is declared in a header that is not part of the sources at hand; it
    is the parameter \<open>S\<close> of every function that uses it.
\<close>

subsection \<open>Data\<close>

datatype error =
    DivisionByZero
  | SampleReadOutOfBounds
  | ScopeWriteOutOfBounds
  | ScopeCopyOutOfBounds
  | NullPipeline

type_synonym sampletype = "16 word"

text \<open>
  A \<^verbatim>\<open>GstBuffer\<close> as the engine reads it: \<^verbatim>\<open>GST_BUFFER_TIMESTAMP\<close>, \<^verbatim>\<open>GST_BUFFER_DURATION\<close>,
  the \<^verbatim>\<open>channels\<close> field of its caps (which \<^verbatim>\<open>gst_structure_get_int\<close> may not find), and
  \<^verbatim>\<open>GST_BUFFER_DATA\<close> seen as \<^verbatim>\<open>GST_BUFFER_SIZE / sizeof(int16_t)\<close> samples.
\<close>

record GstBuffer =
  timestamp :: "64 word"
  duration :: "64 word"
  caps_channels :: "int option"
  data :: "sampletype list"

text \<open>
  Modelled from the spec: \<^verbatim>\<open>GstEnginePipeline\<close>, whose class is not among the sources. The
  engine reads from it "a queryable current device playback position in the same time
  base", the \<^verbatim>\<open>gint64\<close> that \<^verbatim>\<open>position()\<close> returns. The outcomes of its \<^verbatim>\<open>Seek\<close> and
  \<^verbatim>\<open>SetState\<close> are parameters of the functions that call them.
\<close>

record GstEnginePipeline =
  position :: "64 word"

text \<open>
  Modelled from the spec: the declarations of the engine's members, which are in headers
  that are not among the sources. The build buffer \<^verbatim>\<open>current_scope_\<close> and the ready buffer
  \<^verbatim>\<open>m_scope\<close> are each a "fixed-capacity sequence of \<^verbatim>\<open>SCOPESIZE\<close> sample values",
  \<^verbatim>\<open>current_sample_\<close> is the write cursor of the build buffer. The members themselves and
  every use of them are those of the source.
\<close>

record GstEngine =
  delayq :: "GstBuffer list"
  current_sample :: int
  current_scope :: "sampletype list"
  m_scope :: "sampletype list"
  current_pipeline :: "GstEnginePipeline option"
  fadeout_pipeline :: "GstEnginePipeline option"
  fadeout_enabled :: bool

subsection \<open>Queue operations\<close>

definition NewBuffer :: "GstBuffer \<Rightarrow> GstEngine \<Rightarrow> GstEngine" where
  "NewBuffer buf s = s\<lparr>delayq := delayq s @ [buf]\<rparr>"

text \<open>\<^verbatim>\<open>ClearScopeQ\<close>: pop and unref while the queue has a length.\<close>

fun clear_loop :: "GstBuffer list \<Rightarrow> GstBuffer list" where
  "clear_loop [] = []"
| "clear_loop (buf # q) = clear_loop q"

definition ClearScopeQ :: "GstEngine \<Rightarrow> GstEngine" where
  "ClearScopeQ s = s\<lparr>delayq := clear_loop (delayq s)\<rparr>"

subsection \<open>Pruning\<close>

definition etime_of :: "GstBuffer \<Rightarrow> 64 word" where
  "etime_of buf = timestamp buf + duration buf"

text \<open>
  The \<^verbatim>\<open>do ... while\<close> of \<^verbatim>\<open>PruneScope\<close>: the head is popped while
  \<^verbatim>\<open>pos > qint64(etime)\<close>, a signed comparison.
\<close>

fun prune_loop :: "64 word \<Rightarrow> GstBuffer list \<Rightarrow> GstBuffer list" where
  "prune_loop pos [] = []"
| "prune_loop pos (buf # q) =
     (if sint (etime_of buf) < sint pos then prune_loop pos q else buf # q)"

definition PruneScope :: "GstEngine \<Rightarrow> GstEngine \<times> 64 word" where
  "PruneScope s =
     (case current_pipeline s of
        None \<Rightarrow> (s, 0)
      | Some p \<Rightarrow> (s\<lparr>delayq := prune_loop (position p) (delayq s)\<rparr>, position p))"

definition timerEvent :: "GstEngine \<Rightarrow> GstEngine" where
  "timerEvent s = fst (PruneScope s)"

subsection \<open>Extraction\<close>

definition buffer_channels :: "GstBuffer \<Rightarrow> int" where
  "buffer_channels buf = (case caps_channels buf of None \<Rightarrow> 2 | Some c \<Rightarrow> c)"

text \<open>C division of \<^verbatim>\<open>int\<close> truncates towards zero.\<close>

definition c_div :: "int \<Rightarrow> int \<Rightarrow> int" where
  "c_div a b = sgn a * sgn b * (\<bar>a\<bar> div \<bar>b\<bar>)"

text \<open>
  Lines 245 to 254: \<^verbatim>\<open>frames = sz / channels\<close> and
  \<^verbatim>\<open>int off = channels * (pos - stime) / (dur / frames)\<close>. The product and both
  divisions are \<^verbatim>\<open>quint64\<close> operations (the \<^verbatim>\<open>int\<close> operands are converted), the quotient
  is then narrowed to \<^verbatim>\<open>int\<close>.
\<close>

definition scope_offset :: "int \<Rightarrow> 64 word \<Rightarrow> 64 word \<Rightarrow> 64 word \<Rightarrow> int \<Rightarrow> error + int" where
  "scope_offset channels pos stime dur sz =
     (if channels = 0 then Inl DivisionByZero
      else if (word_of_int (c_div sz channels) :: 64 word) = 0 then Inl DivisionByZero
      else if dur div word_of_int (c_div sz channels) = 0 then Inl DivisionByZero
      else Inr (sint (ucast ((word_of_int channels * (pos - stime))
                               div (dur div word_of_int (c_div sz channels))) :: 32 word)))"

text \<open>
  The inner \<^verbatim>\<open>for\<close> loop, one frame:
  \<^verbatim>\<open>current_scope_[current_sample_++] = data[i + j]\<close> while
  \<^verbatim>\<open>j < channels && current_sample_ < SCOPESIZE\<close>.
\<close>

function copy_frame :: "nat \<Rightarrow> int \<Rightarrow> sampletype list \<Rightarrow> int \<Rightarrow> int \<Rightarrow> GstEngine \<Rightarrow> error + GstEngine" where
  "copy_frame S channels dat i j s =
     (if j < channels \<and> current_sample s < int S then
        (if current_sample s < 0 \<or> int (length (current_scope s)) \<le> current_sample s
           then Inl ScopeWriteOutOfBounds
         else if i + j < 0 \<or> int (length dat) \<le> i + j
           then Inl SampleReadOutOfBounds
         else copy_frame S channels dat i (j + 1)
                (s\<lparr>current_scope := (current_scope s)[nat (current_sample s) := dat ! nat (i + j)],
                   current_sample := current_sample s + 1\<rparr>))
      else Inr s)"
  by pat_completeness auto
termination
  by (relation "measure (\<lambda>(S, channels, dat, i, j, s). nat (channels - j))") auto

declare copy_frame.simps [simp del]

text \<open>
  The \<^verbatim>\<open>while (buf && current_sample_ < SCOPESIZE && i < sz)\<close> loop. \<^verbatim>\<open>buf\<close> is the head of
  the queue, \<^verbatim>\<open>sz\<close> and \<^verbatim>\<open>data\<close> are those of the head; \<^verbatim>\<open>channels\<close> is not read again
  when the loop moves to the next buffer. The loop need not terminate (it does not for
  \<^verbatim>\<open>channels < 0\<close>), so its result is an option.
\<close>

partial_function (option) scope_loop :: "nat \<Rightarrow> int \<Rightarrow> int \<Rightarrow> GstEngine \<Rightarrow> (error + GstEngine) option" where
  "scope_loop S channels i s =
     (case delayq s of
        [] \<Rightarrow> Some (Inr s)
      | buf # rest \<Rightarrow>
          if current_sample s < int S \<and> i < int (length (data buf)) then
            (case copy_frame S channels (data buf) i 0 s of
               Inl e \<Rightarrow> Some (Inl e)
             | Inr s' \<Rightarrow>
                 if int (length (data buf)) - 1 \<le> i + channels
                 then scope_loop S channels 0 (s'\<lparr>delayq := rest\<rparr>)
                 else scope_loop S channels (i + channels) s')
          else Some (Inr s))"

declare scope_loop.simps [code]

definition UpdateScope :: "nat \<Rightarrow> GstEngine \<Rightarrow> (error + GstEngine) option" where
  "UpdateScope S s =
     (case PruneScope s of (s1, pos) \<Rightarrow>
        (case delayq s1 of
           [] \<Rightarrow> Some (Inr s1)
         | buf # rest \<Rightarrow>
             if 2 < buffer_channels buf then Some (Inr s1)
             else if pos \<le> timestamp buf \<or> etime_of buf \<le> pos then Some (Inr s1)
             else
               (case scope_offset (buffer_channels buf) pos (timestamp buf) (duration buf)
                       (int (length (data buf))) of
                  Inl e \<Rightarrow> Some (Inl e)
                | Inr off \<Rightarrow>
                    if int (length (data buf)) \<le> off then Some (Inr s1)
                    else scope_loop S (buffer_channels buf) off s1)))"

subsection \<open>The accessor\<close>

text \<open>\<^verbatim>\<open>for (int i=0; i< SCOPESIZE; i++) m_scope[i] = current_scope_[i];\<close>\<close>

fun copy_scope :: "nat list \<Rightarrow> sampletype list \<Rightarrow> sampletype list \<Rightarrow> error + sampletype list" where
  "copy_scope [] cur m = Inr m"
| "copy_scope (i # is) cur m =
     (if i < length cur \<and> i < length m then copy_scope is cur (m[i := cur ! i])
      else Inl ScopeCopyOutOfBounds)"

definition scope :: "nat \<Rightarrow> GstEngine \<Rightarrow> (error + GstEngine \<times> sampletype list) option" where
  "scope S s =
     (case UpdateScope S s of
        None \<Rightarrow> None
      | Some (Inl e) \<Rightarrow> Some (Inl e)
      | Some (Inr u) \<Rightarrow>
          if int S \<le> current_sample u then
            (case copy_scope [0..<S] (current_scope u) (m_scope u) of
               Inl e \<Rightarrow> Some (Inl e)
             | Inr m \<Rightarrow> Some (Inr (u\<lparr>m_scope := m, current_sample := 0\<rparr>, m)))
          else Some (Inr (u, m_scope u)))"

subsection \<open>Lifecycle\<close>

text \<open>
  \<^verbatim>\<open>current_pipeline_.reset()\<close> where the engine holds the only reference: the pipeline
  is destroyed, and \<^verbatim>\<open>CreatePipeline\<close> has connected its \<^verbatim>\<open>destroyed()\<close> signal to
  \<^verbatim>\<open>ClearScopeQ\<close>.
\<close>

definition reset_current_pipeline :: "GstEngine \<Rightarrow> GstEngine" where
  "reset_current_pipeline s =
     (case current_pipeline s of
        None \<Rightarrow> s
      | Some p \<Rightarrow> (ClearScopeQ s)\<lparr>current_pipeline := None\<rparr>)"

text \<open>
  \<^verbatim>\<open>seek\<close>; the outcome of the pipeline's own \<^verbatim>\<open>Seek\<close> is the parameter \<open>seek_ok\<close>.
\<close>

definition seek :: "bool \<Rightarrow> GstEngine \<Rightarrow> GstEngine" where
  "seek seek_ok s =
     (case current_pipeline s of
        None \<Rightarrow> s
      | Some p \<Rightarrow> if seek_ok then ClearScopeQ s else s)"

text \<open>
  \<^verbatim>\<open>stop\<close>. With fade-out the pipeline is handed to \<^verbatim>\<open>fadeout_pipeline_\<close>, disconnected
  from the engine, and the queue is cleared explicitly; without it the pipeline is
  released.
\<close>

definition stop :: "GstEngine \<Rightarrow> GstEngine" where
  "stop s =
     (if fadeout_enabled s
      then (ClearScopeQ (s\<lparr>fadeout_pipeline := current_pipeline s\<rparr>))\<lparr>current_pipeline := None\<rparr>
      else reset_current_pipeline s)"

text \<open>
  \<^verbatim>\<open>play\<close>; \<open>set_state_ok\<close> is the outcome of \<^verbatim>\<open>SetState(GST_STATE_PLAYING)\<close>, \<open>seek_ok\<close>
  that of the seek made for a non-zero \<open>offset\<close>.
\<close>

definition play :: "bool \<Rightarrow> bool \<Rightarrow> nat \<Rightarrow> GstEngine \<Rightarrow> error + GstEngine \<times> bool" where
  "play set_state_ok seek_ok offset s =
     (case current_pipeline s of
        None \<Rightarrow> Inl NullPipeline
      | Some p \<Rightarrow>
          if \<not> set_state_ok then Inr (reset_current_pipeline s, False)
          else Inr ((if offset \<noteq> 0 then seek seek_ok (s\<lparr>fadeout_pipeline := None\<rparr>)
                     else s\<lparr>fadeout_pipeline := None\<rparr>)\<lparr>current_sample := 0\<rparr>, True))"

text \<open>
  \<^verbatim>\<open>HandlePipelineError\<close> and \<^verbatim>\<open>EndOfStreamReached\<close> release the pipeline.
\<close>

definition HandlePipelineError :: "GstEngine \<Rightarrow> GstEngine" where
  "HandlePipelineError s = reset_current_pipeline s"

definition EndOfStreamReached :: "GstEngine \<Rightarrow> GstEngine" where
  "EndOfStreamReached s = reset_current_pipeline s"

text \<open>
  \<^verbatim>\<open>load\<close>; \<open>created\<close> is what \<^verbatim>\<open>CreatePipeline\<close> returns. \<^verbatim>\<open>CreatePipeline\<close> connects the
  \<^verbatim>\<open>destroyed()\<close> signal of the new pipeline to \<^verbatim>\<open>ClearScopeQ\<close> before it calls \<^verbatim>\<open>Init\<close>, and
  \<^verbatim>\<open>ret.reset()\<close> destroys the pipeline when \<^verbatim>\<open>Init\<close> fails: a failed \<^verbatim>\<open>load\<close> clears the
  queue and keeps the current pipeline. Otherwise assigning the new pipeline releases
  the previous one.
\<close>

definition load :: "GstEnginePipeline option \<Rightarrow> GstEngine \<Rightarrow> GstEngine \<times> bool" where
  "load created s =
     (case created of
        None \<Rightarrow> (ClearScopeQ s, False)
      | Some p \<Rightarrow> ((reset_current_pipeline s)\<lparr>current_pipeline := Some p\<rparr>, True))"

text \<open>
  Not a function of the engine: the clock of the current pipeline moves, and the next
  \<^verbatim>\<open>current_pipeline_->position()\<close> returns \<open>pos\<close>.
\<close>

definition pipeline_position_changed :: "64 word \<Rightarrow> GstEngine \<Rightarrow> GstEngine" where
  "pipeline_position_changed pos s =
     s\<lparr>current_pipeline := map_option (\<lambda>p. p\<lparr>position := pos\<rparr>) (current_pipeline s)\<rparr>"

subsection \<open>The engine as a transition system\<close>

datatype engine_op =
    OpNewBuffer GstBuffer
  | OpPruneScope
  | OpUpdateScope
  | OpScope
  | OpClearScopeQ
  | OpTimerEvent
  | OpSeek bool
  | OpStop
  | OpPlay bool bool nat
  | OpHandlePipelineError
  | OpEndOfStreamReached
  | OpLoad "GstEnginePipeline option"
  | OpPositionChanged "64 word"

fun step :: "nat \<Rightarrow> engine_op \<Rightarrow> GstEngine \<Rightarrow> (error + GstEngine) option" where
  "step S (OpNewBuffer buf) s = Some (Inr (NewBuffer buf s))"
| "step S OpPruneScope s = Some (Inr (fst (PruneScope s)))"
| "step S OpUpdateScope s = UpdateScope S s"
| "step S OpScope s =
     (case scope S s of
        None \<Rightarrow> None
      | Some (Inl e) \<Rightarrow> Some (Inl e)
      | Some (Inr (s', ready)) \<Rightarrow> Some (Inr s'))"
| "step S OpClearScopeQ s = Some (Inr (ClearScopeQ s))"
| "step S OpTimerEvent s = Some (Inr (timerEvent s))"
| "step S (OpSeek seek_ok) s = Some (Inr (seek seek_ok s))"
| "step S OpStop s = Some (Inr (stop s))"
| "step S (OpPlay set_state_ok seek_ok offset) s =
     (case play set_state_ok seek_ok offset s of
        Inl e \<Rightarrow> Some (Inl e)
      | Inr (s', ok) \<Rightarrow> Some (Inr s'))"
| "step S OpHandlePipelineError s = Some (Inr (HandlePipelineError s))"
| "step S OpEndOfStreamReached s = Some (Inr (EndOfStreamReached s))"
| "step S (OpLoad created) s = Some (Inr (fst (load created s)))"
| "step S (OpPositionChanged pos) s = Some (Inr (pipeline_position_changed pos s))"

text \<open>A sequence of operations; it stops at the first that fails or does not return.\<close>

fun run :: "nat \<Rightarrow> engine_op list \<Rightarrow> GstEngine \<Rightarrow> (error + GstEngine) option" where
  "run S [] s = Some (Inr s)"
| "run S (op # ops) s =
     (case step S op s of
        None \<Rightarrow> None
      | Some (Inl e) \<Rightarrow> Some (Inl e)
      | Some (Inr s') \<Rightarrow> run S ops s')"

text \<open>
  The complete fills that a sequence of operations publishes, oldest first: the build
  buffer at each call of \<^verbatim>\<open>scope\<close> whose extraction pass left the cursor at \<open>S\<close>.
\<close>

fun fill_of :: "nat \<Rightarrow> engine_op \<Rightarrow> GstEngine \<Rightarrow> sampletype list option" where
  "fill_of S OpScope s =
     (case UpdateScope S s of
        Some (Inr u) \<Rightarrow> if current_sample u = int S then Some (current_scope u) else None
      | _ \<Rightarrow> None)"
| "fill_of S op s = None"

fun fills :: "nat \<Rightarrow> engine_op list \<Rightarrow> GstEngine \<Rightarrow> sampletype list list" where
  "fills S [] s = []"
| "fills S (op # ops) s =
     (case step S op s of
        Some (Inr s') \<Rightarrow>
          (case fill_of S op s of
             None \<Rightarrow> fills S ops s'
           | Some f \<Rightarrow> f # fills S ops s')
      | _ \<Rightarrow> [])"

subsection \<open>Predicates used in the statements\<close>

text \<open>
  The scope buffers hold \<open>S\<close> samples each and the build cursor lies between 0 and \<open>S\<close>.
\<close>

definition scope_inv :: "nat \<Rightarrow> GstEngine \<Rightarrow> bool" where
  "scope_inv S s \<longleftrightarrow>
     0 \<le> current_sample s \<and> current_sample s \<le> int S
     \<and> length (current_scope s) = S \<and> length (m_scope s) = S"

text \<open>
  From \<open>s\<close> to \<open>s'\<close> the cursor has not moved back, the ready buffer is the same, and the
  build buffer differs at most at the indices from the old cursor up to the new one.
\<close>

definition only_written_between :: "GstEngine \<Rightarrow> GstEngine \<Rightarrow> bool" where
  "only_written_between s s' \<longleftrightarrow>
     current_sample s \<le> current_sample s'
     \<and> length (current_scope s') = length (current_scope s)
     \<and> m_scope s' = m_scope s
     \<and> (\<forall>k\<in>{0..<length (current_scope s)}.
           int k < current_sample s \<or> current_sample s' \<le> int k \<longrightarrow>
           current_scope s' ! k = current_scope s ! k)"

text \<open>\<open>q'\<close> is what is left of \<open>q\<close> after some buffers were popped from its head.\<close>

definition queue_tail :: "GstBuffer list \<Rightarrow> GstBuffer list \<Rightarrow> bool" where
  "queue_tail q' q \<longleftrightarrow> q' = drop (length q - length q') q"

definition same_pipelines :: "GstEngine \<Rightarrow> GstEngine \<Rightarrow> bool" where
  "same_pipelines s s' \<longleftrightarrow>
     current_pipeline s' = current_pipeline s \<and> fadeout_pipeline s' = fadeout_pipeline s
     \<and> fadeout_enabled s' = fadeout_enabled s"

text \<open>What an extraction pass started in \<open>s\<close> may end with.\<close>

definition extract_post :: "nat \<Rightarrow> GstEngine \<Rightarrow> error + GstEngine \<Rightarrow> bool" where
  "extract_post S s r \<longleftrightarrow>
     (case r of
        Inl e \<Rightarrow> e = DivisionByZero \<or> e = SampleReadOutOfBounds
      | Inr s' \<Rightarrow> only_written_between s s' \<and> same_pipelines s s'
                 \<and> current_sample s' \<le> int S \<and> queue_tail (delayq s') (delayq s))"

text \<open>Shorthands for the concrete states of the examples.\<close>

abbreviation chunk :: "64 word \<Rightarrow> 64 word \<Rightarrow> int \<Rightarrow> sampletype list \<Rightarrow> GstBuffer" where
  "chunk start dur channels samples \<equiv>
     \<lparr>timestamp = start, duration = dur, caps_channels = Some channels, data = samples\<rparr>"

abbreviation engine ::
  "GstBuffer list \<Rightarrow> int \<Rightarrow> sampletype list \<Rightarrow> sampletype list \<Rightarrow> GstEnginePipeline option \<Rightarrow> GstEngine" where
  "engine q cursor build ready pipeline \<equiv>
     \<lparr>delayq = q, current_sample = cursor, current_scope = build, m_scope = ready,
      current_pipeline = pipeline, fadeout_pipeline = None, fadeout_enabled = True\<rparr>"

abbreviation playing_at :: "64 word \<Rightarrow> GstEnginePipeline option" where
  "playing_at pos \<equiv> Some \<lparr>position = pos\<rparr>"

section \<open>Pruning\<close>

lemma prune_loop_suffix:
  "\<exists>dropped. q = dropped @ prune_loop pos q \<and> (\<forall>b\<in>set dropped. sint (etime_of b) < sint pos)"
proof (induction q)
  case Nil
  show ?case by simp
next
  case (Cons b q)
  then obtain dropped where d: "q = dropped @ prune_loop pos q"
    "\<forall>b\<in>set dropped. sint (etime_of b) < sint pos" by blast
  show ?case
  proof (cases "sint (etime_of b) < sint pos")
    case True
    have "b # q = (b # dropped) @ prune_loop pos (b # q)" using d(1) True by simp
    moreover have "\<forall>x\<in>set (b # dropped). sint (etime_of x) < sint pos" using d(2) True by simp
    ultimately show ?thesis by blast
  next
    case False
    then have "b # q = [] @ prune_loop pos (b # q)" by simp
    then show ?thesis by (metis empty_iff list.set(1))
  qed
qed

lemma prune_loop_head:
  "prune_loop pos q = b # rest \<Longrightarrow> sint pos \<le> sint (etime_of b)"
  by (induction q) (auto split: if_splits)

lemma prune_loop_sorted:
  "sorted_wrt (\<lambda>a b. sint (etime_of a) \<le> sint (etime_of b)) q \<Longrightarrow>
   b \<in> set (prune_loop pos q) \<Longrightarrow> sint pos \<le> sint (etime_of b)"
proof (induction q)
  case Nil
  then show ?case by simp
next
  case (Cons a q)
  show ?case
  proof (cases "sint (etime_of a) < sint pos")
    case True
    with Cons show ?thesis by simp
  next
    case False
    with Cons.prems have "b = a \<or> (b \<in> set q \<and> sint (etime_of a) \<le> sint (etime_of b))"
      by auto
    with False show ?thesis by auto
  qed
qed

text \<open>
  Claim C5, as the code has it. \<^verbatim>\<open>PruneScope\<close> with a pipeline at position \<open>pos\<close> pops
  from the head exactly the buffers whose end time lies before \<open>pos\<close> (as signed 64-bit
  values) until the queue is empty or the head ends at or after \<open>pos\<close>. It never looks
  behind the head: every remaining buffer ends at or after \<open>pos\<close> when the end times in
  the queue do not decrease.
\<close>

theorem PruneScope_head_not_elapsed:
  assumes "current_pipeline s = Some p" and "PruneScope s = (s', pos)"
  shows "pos = position p
       \<and> (\<exists>dropped. delayq s = dropped @ delayq s' \<and> (\<forall>b\<in>set dropped. sint (etime_of b) < sint pos))
       \<and> (delayq s' = [] \<or> sint pos \<le> sint (etime_of (hd (delayq s'))))
       \<and> (sorted_wrt (\<lambda>a b. sint (etime_of a) \<le> sint (etime_of b)) (delayq s) \<longrightarrow>
            (\<forall>b\<in>set (delayq s'). sint pos \<le> sint (etime_of b)))"
proof -
  from assms have pos: "pos = position p" and s': "delayq s' = prune_loop pos (delayq s)"
    by (auto simp: PruneScope_def)
  have "delayq s' = [] \<or> sint pos \<le> sint (etime_of (hd (delayq s')))"
  proof (cases "delayq s'")
    case Nil
    then show ?thesis by simp
  next
    case (Cons b rest)
    with s' have "prune_loop pos (delayq s) = b # rest" by simp
    from prune_loop_head [OF this] Cons show ?thesis by simp
  qed
  with pos s' prune_loop_suffix [of "delayq s" pos] prune_loop_sorted [of "delayq s" _ pos]
  show ?thesis by auto
qed

theorem PruneScope_head_not_elapsed_witness:
  "PruneScope (engine [chunk 0 10 2 [], chunk 10 100 2 [], chunk 110 100 2 []] 0 [] [] (playing_at 50))
     = (engine [chunk 10 100 2 [], chunk 110 100 2 []] 0 [] [] (playing_at 50), 50)
   \<and> sint (50 :: 64 word) \<le> sint (etime_of (chunk 10 100 2 []))
   \<and> sint (50 :: 64 word) \<le> sint (etime_of (chunk 110 100 2 []))"
  using PruneScope_head_not_elapsed [of
    "engine [chunk 0 10 2 [], chunk 10 100 2 [], chunk 110 100 2 []] 0 [] [] (playing_at 50)"
    "\<lparr>position = 50\<rparr>"
    "engine [chunk 10 100 2 [], chunk 110 100 2 []] 0 [] [] (playing_at 50)" 50]
  by (simp add: PruneScope_def etime_of_def)

text \<open>
  Claim C5 as stated fails: with a buffer from 0 to 100 at the head and a buffer from 10
  to 15 behind it, pruning at position 50 removes nothing, and the second buffer has
  ended before 50.
\<close>

theorem PruneScope_keeps_elapsed_tail_counterexample:
  "PruneScope (engine [chunk 0 100 2 [], chunk 10 5 2 []] 0 [] [] (playing_at 50))
     = (engine [chunk 0 100 2 [], chunk 10 5 2 []] 0 [] [] (playing_at 50), 50)
   \<and> sint (etime_of (chunk 10 5 2 [])) < sint (50 :: 64 word)"
  by (simp add: PruneScope_def etime_of_def)

text \<open>
  Claim C10. Without a current pipeline \<^verbatim>\<open>PruneScope\<close> returns 0 and changes nothing,
  whatever is queued; the timer tick and the extraction pass, which both start with
  \<^verbatim>\<open>PruneScope\<close>, leave the state as it is too, so only \<^verbatim>\<open>ClearScopeQ\<close> releases the
  queued buffers.
\<close>

theorem PruneScope_without_pipeline:
  assumes "current_pipeline s = None"
  shows "PruneScope s = (s, 0) \<and> timerEvent s = s \<and> UpdateScope S s = Some (Inr s)"
  using assms by (auto simp: PruneScope_def timerEvent_def UpdateScope_def split: list.splits)

theorem PruneScope_without_pipeline_witness:
  "PruneScope (engine [chunk 0 10 2 [1, 2], chunk 10 10 2 [3, 4]] 1 [7, 0] [0, 0] None)
     = (engine [chunk 0 10 2 [1, 2], chunk 10 10 2 [3, 4]] 1 [7, 0] [0, 0] None, 0)"
  using PruneScope_without_pipeline [of
    "engine [chunk 0 10 2 [1, 2], chunk 10 10 2 [3, 4]] 1 [7, 0] [0, 0] None"]
  by simp

section \<open>The extraction pass\<close>

lemma only_written_between_refl: "only_written_between s s"
  by (simp add: only_written_between_def)

lemma only_written_between_trans:
  "only_written_between s t \<Longrightarrow> only_written_between t u \<Longrightarrow> only_written_between s u"
  unfolding only_written_between_def by auto

lemma only_written_between_delayq:
  "only_written_between s (t\<lparr>delayq := q\<rparr>) = only_written_between s t"
  "only_written_between (s\<lparr>delayq := q\<rparr>) t = only_written_between s t"
  by (simp_all add: only_written_between_def)

lemma copy_frame_result:
  assumes "copy_frame S channels dat i j s = Inr s'"
  shows "only_written_between s s' \<and> delayq s' = delayq s
       \<and> current_pipeline s' = current_pipeline s \<and> fadeout_pipeline s' = fadeout_pipeline s
       \<and> fadeout_enabled s' = fadeout_enabled s
       \<and> (current_sample s \<le> int S \<longrightarrow> current_sample s' \<le> int S)
       \<and> (j < channels \<and> current_sample s < int S \<longrightarrow> current_sample s < current_sample s')"
  using assms
proof (induction S channels dat i j s rule: copy_frame.induct)
  case (1 S channels dat i j s)
  show ?case
  proof (cases "j < channels \<and> current_sample s < int S")
    case False
    with "1.prems" have "s' = s" by (simp add: copy_frame.simps [of S channels dat i j s])
    with False show ?thesis by (auto simp: only_written_between_refl)
  next
    case go: True
    let ?s1 = "s\<lparr>current_scope := (current_scope s)[nat (current_sample s) := dat ! nat (i + j)],
                   current_sample := current_sample s + 1\<rparr>"
    from go "1.prems" have ok: "\<not> (current_sample s < 0 \<or> int (length (current_scope s)) \<le> current_sample s)"
      "\<not> (i + j < 0 \<or> int (length dat) \<le> i + j)"
      and r: "copy_frame S channels dat i (j + 1) ?s1 = Inr s'"
      by (auto simp: copy_frame.simps [of S channels dat i j s] split: if_splits)
    note ih = "1.IH" [OF go ok r]
    have step: "only_written_between s ?s1"
      using ok(1) by (auto simp: only_written_between_def)
    from ih have "only_written_between ?s1 s'" by simp
    with step have "only_written_between s s'" by (rule only_written_between_trans)
    moreover from ih have "current_sample s < current_sample s'"
      by (simp add: only_written_between_def)
    moreover from ih go have "current_sample s' \<le> int S" by simp
    ultimately show ?thesis using ih by simp
  qed
qed


lemma queue_tail_iff: "queue_tail q' q \<longleftrightarrow> (\<exists>popped. q = popped @ q')"
proof
  assume "queue_tail q' q"
  then have "q = take (length q - length q') q @ q'"
    by (metis append_take_drop_id queue_tail_def)
  then show "\<exists>popped. q = popped @ q'" by blast
next
  assume "\<exists>popped. q = popped @ q'"
  then show "queue_tail q' q" by (auto simp: queue_tail_def)
qed

lemma queue_tail_refl: "queue_tail q q"
  by (simp add: queue_tail_def)

lemma queue_tail_Cons: "queue_tail q' q \<Longrightarrow> queue_tail q' (b # q)"
  unfolding queue_tail_iff by (metis append_Cons)

lemma queue_tail_trans: "queue_tail q'' q' \<Longrightarrow> queue_tail q' q \<Longrightarrow> queue_tail q'' q"
  unfolding queue_tail_iff by (metis append.assoc)

lemma extract_post_refl: "scope_inv S s \<Longrightarrow> extract_post S s (Inr s)"
  by (simp add: extract_post_def scope_inv_def only_written_between_refl same_pipelines_def
      queue_tail_refl)

lemma copy_frame_error:
  assumes "scope_inv S s" "copy_frame S channels dat i j s = Inl e"
  shows "e = SampleReadOutOfBounds"
  using assms
proof (induction S channels dat i j s rule: copy_frame.induct)
  case (1 S channels dat i j s)
  let ?s1 = "s\<lparr>current_scope := (current_scope s)[nat (current_sample s) := dat ! nat (i + j)],
                   current_sample := current_sample s + 1\<rparr>"
  from "1.prems" have go: "j < channels \<and> current_sample s < int S"
    by (auto simp: copy_frame.simps [of S channels dat i j s] split: if_splits)
  with "1.prems"(1) have inb: "\<not> (current_sample s < 0 \<or> int (length (current_scope s)) \<le> current_sample s)"
    by (auto simp: scope_inv_def)
  show ?case
  proof (cases "i + j < 0 \<or> int (length dat) \<le> i + j")
    case True
    with go inb "1.prems"(2) show ?thesis
      by (auto simp: copy_frame.simps [of S channels dat i j s])
  next
    case False
    with go inb "1.prems"(2) have r: "copy_frame S channels dat i (j + 1) ?s1 = Inl e"
      by (simp add: copy_frame.simps [of S channels dat i j s])
    from go "1.prems"(1) have "scope_inv S ?s1" by (auto simp: scope_inv_def)
    from "1.IH" [OF go inb False this r] show ?thesis .
  qed
qed

lemma scope_loop_body:
  assumes IH: "\<And>S channels i s y. loop S channels i s = Some y \<Longrightarrow> scope_inv S s \<longrightarrow> extract_post S s y"
    and body: "(case delayq s of
        [] \<Rightarrow> Some (Inr s)
      | buf # rest \<Rightarrow>
          if current_sample s < int S \<and> i < int (length (data buf)) then
            (case copy_frame S channels (data buf) i 0 s of
               Inl e \<Rightarrow> Some (Inl e)
             | Inr s' \<Rightarrow>
                 if int (length (data buf)) - 1 \<le> i + channels
                 then loop S channels 0 (s'\<lparr>delayq := rest\<rparr>)
                 else loop S channels (i + channels) s')
          else Some (Inr s)) = Some r"
    and pre: "scope_inv S s"
  shows "extract_post S s r"
proof (cases "delayq s")
  case Nil
  with body have "r = Inr s" by simp
  with pre show ?thesis by (simp add: extract_post_refl)
next
  case (Cons buf rest)
  show ?thesis
  proof (cases "current_sample s < int S \<and> i < int (length (data buf))")
    case False
    with Cons body have "r = Inr s" by auto
    with pre show ?thesis by (simp add: extract_post_refl)
  next
    case go: True
    show ?thesis
    proof (cases "copy_frame S channels (data buf) i 0 s")
      case (Inl e)
      with Cons go body have r: "r = Inl e" by simp
      from copy_frame_error [OF pre Inl] r show ?thesis by (simp add: extract_post_def)
    next
      case (Inr s1)
      note cf = copy_frame_result [OF Inr]
      from cf pre have pre1: "scope_inv S s1"
        by (auto simp: only_written_between_def scope_inv_def)
      then have pre1': "scope_inv S (s1\<lparr>delayq := rest\<rparr>)" by (simp add: scope_inv_def)
      from cf have sp: "same_pipelines s s1" by (simp add: same_pipelines_def)
      have glue: "extract_post S s r" if "extract_post S s1' r" and "queue_tail (delayq s1') (delayq s)"
        and "only_written_between s s1'" and "same_pipelines s s1'" for s1'
      proof (cases r)
        case (Inl e)
        with that(1) show ?thesis by (simp add: extract_post_def)
      next
        case (Inr s')
        with that(1) have p: "only_written_between s1' s'" "same_pipelines s1' s'"
          "current_sample s' \<le> int S" "queue_tail (delayq s') (delayq s1')"
          by (simp_all add: extract_post_def)
        from that(3) p(1) have "only_written_between s s'" by (rule only_written_between_trans)
        moreover from that(4) p(2) have "same_pipelines s s'" by (simp add: same_pipelines_def)
        moreover from p(4) that(2) have "queue_tail (delayq s') (delayq s)" by (rule queue_tail_trans)
        ultimately show ?thesis using Inr p(3) by (simp add: extract_post_def)
      qed
      show ?thesis
      proof (cases "int (length (data buf)) - 1 \<le> i + channels")
        case True
        with Cons go Inr body have "loop S channels 0 (s1\<lparr>delayq := rest\<rparr>) = Some r" by simp
        from IH [OF this] pre1' have "extract_post S (s1\<lparr>delayq := rest\<rparr>) r" by simp
        moreover have "queue_tail (delayq (s1\<lparr>delayq := rest\<rparr>)) (delayq s)"
          using Cons by (simp add: queue_tail_Cons queue_tail_refl)
        moreover have "only_written_between s (s1\<lparr>delayq := rest\<rparr>)"
          using cf by (simp add: only_written_between_delayq)
        moreover have "same_pipelines s (s1\<lparr>delayq := rest\<rparr>)"
          using sp by (simp add: same_pipelines_def)
        ultimately show ?thesis by (rule glue)
      next
        case False
        with Cons go Inr body have "loop S channels (i + channels) s1 = Some r" by simp
        from IH [OF this] pre1 have "extract_post S s1 r" by simp
        moreover have "queue_tail (delayq s1) (delayq s)" using cf by (simp add: queue_tail_refl)
        moreover have "only_written_between s s1" using cf by simp
        ultimately show ?thesis using sp by (rule glue)
      qed
    qed
  qed
qed

lemma scope_loop_result:
  assumes "scope_loop S channels i s = Some r" and "scope_inv S s"
  shows "extract_post S s r"
proof -
  have "scope_inv S s \<longrightarrow> extract_post S s r"
  proof (rule scope_loop.raw_induct
      [where P = "\<lambda>S channels i s r. scope_inv S s \<longrightarrow> extract_post S s r", OF _ assms(1)])
    fix loop S channels i s r
    assume IH: "\<And>S channels i s y. loop S channels i s = Some y \<Longrightarrow>
                  scope_inv S s \<longrightarrow> extract_post S s y"
      and body: "(case delayq s of
        [] \<Rightarrow> Some (Inr s)
      | buf # rest \<Rightarrow>
          if current_sample s < int S \<and> i < int (length (data buf)) then
            (case copy_frame S channels (data buf) i 0 s of
               Inl e \<Rightarrow> Some (Inl e)
             | Inr s' \<Rightarrow>
                 if int (length (data buf)) - 1 \<le> i + channels
                 then loop S channels 0 (s'\<lparr>delayq := rest\<rparr>)
                 else loop S channels (i + channels) s')
          else Some (Inr s)) = Some r"
    show "scope_inv S s \<longrightarrow> extract_post S s r"
    proof
      assume pre: "scope_inv S s"
      show "extract_post S s r"
        by (rule scope_loop_body [where loop = loop and i = i and channels = channels,
              OF _ body pre]) (rule IH)
    qed
  qed
  with assms(2) show ?thesis by simp
qed


lemma scope_loop_returns:
  assumes "0 < channels"
  shows "\<exists>r. scope_loop S channels i s = Some r"
proof (induction "nat (int S - current_sample s)" arbitrary: i s rule: less_induct)
  case less
  show ?case
  proof (cases "delayq s")
    case Nil
    then show ?thesis by (simp add: scope_loop.simps [of S channels i s])
  next
    case (Cons buf rest)
    show ?thesis
    proof (cases "current_sample s < int S \<and> i < int (length (data buf))")
      case False
      with Cons show ?thesis by (auto simp: scope_loop.simps [of S channels i s])
    next
      case go: True
      show ?thesis
      proof (cases "copy_frame S channels (data buf) i 0 s")
        case (Inl e)
        with Cons go show ?thesis by (simp add: scope_loop.simps [of S channels i s])
      next
        case (Inr s1)
        from copy_frame_result [OF Inr] assms go
        have "current_sample s < current_sample s1" by simp
        with go have less1: "nat (int S - current_sample s1) < nat (int S - current_sample s)"
          by linarith
        show ?thesis
        proof (cases "int (length (data buf)) - 1 \<le> i + channels")
          case True
          from less1 have "nat (int S - current_sample (s1\<lparr>delayq := rest\<rparr>))
                            < nat (int S - current_sample s)" by simp
          from less.hyps [OF this, of 0] True Cons go Inr show ?thesis
            by (simp add: scope_loop.simps [of S channels i s])
        next
          case False
          from less.hyps [OF less1, of "i + channels"] False Cons go Inr show ?thesis
            by (simp add: scope_loop.simps [of S channels i s])
        qed
      qed
    qed
  qed
qed

lemma prune_loop_tail: "queue_tail (prune_loop pos q) q"
  using prune_loop_suffix [of q pos] by (auto simp: queue_tail_iff)

lemma prune_loop_subset: "set (prune_loop pos q) \<subseteq> set q"
  using prune_loop_suffix [of q pos] by (metis Un_upper2 set_append)

lemma PruneScope_result:
  "\<exists>q1. PruneScope s = (s\<lparr>delayq := q1\<rparr>, snd (PruneScope s)) \<and> queue_tail q1 (delayq s)
        \<and> set q1 \<subseteq> set (delayq s)"
proof (cases "current_pipeline s")
  case None
  then have "PruneScope s = (s\<lparr>delayq := delayq s\<rparr>, snd (PruneScope s))"
    by (simp add: PruneScope_def)
  then show ?thesis using queue_tail_refl by blast
next
  case (Some p)
  then have "PruneScope s = (s\<lparr>delayq := prune_loop (position p) (delayq s)\<rparr>, snd (PruneScope s))"
    by (simp add: PruneScope_def)
  then show ?thesis using prune_loop_tail prune_loop_subset by blast
qed

lemma scope_inv_delayq: "scope_inv S (s\<lparr>delayq := q\<rparr>) = scope_inv S s"
  by (simp add: scope_inv_def)

lemma extract_post_pruned:
  assumes "extract_post S (s\<lparr>delayq := q1\<rparr>) r" and "queue_tail q1 (delayq s)"
  shows "extract_post S s r"
proof (cases r)
  case (Inl e)
  with assms(1) show ?thesis by (simp add: extract_post_def)
next
  case (Inr s')
  with assms(1) have p: "only_written_between s s'" "same_pipelines s s'"
    "current_sample s' \<le> int S" "queue_tail (delayq s') q1"
    by (simp_all add: extract_post_def only_written_between_delayq same_pipelines_def)
  from p(4) assms(2) have "queue_tail (delayq s') (delayq s)" by (rule queue_tail_trans)
  with p Inr show ?thesis by (simp add: extract_post_def)
qed

lemma scope_offset_error: "scope_offset channels pos stime dur sz = Inl e \<Longrightarrow> e = DivisionByZero"
  by (auto simp: scope_offset_def split: if_splits)

lemma UpdateScope_cases:
  assumes "PruneScope s = (s1, pos)"
  shows "UpdateScope S s = Some (Inr s1)
       \<or> UpdateScope S s = Some (Inl DivisionByZero)
       \<or> (\<exists>buf rest off. delayq s1 = buf # rest \<and> buffer_channels buf \<le> 2 \<and> buffer_channels buf \<noteq> 0
            \<and> UpdateScope S s = scope_loop S (buffer_channels buf) off s1)"
proof (cases "delayq s1")
  case Nil
  with assms show ?thesis by (simp add: UpdateScope_def)
next
  case (Cons buf rest)
  show ?thesis
  proof (cases "2 < buffer_channels buf \<or> pos \<le> timestamp buf \<or> etime_of buf \<le> pos")
    case True
    with Cons assms show ?thesis by (auto simp: UpdateScope_def)
  next
    case inside: False
    show ?thesis
    proof (cases "scope_offset (buffer_channels buf) pos (timestamp buf) (duration buf)
                       (int (length (data buf)))")
      case (Inl e)
      with scope_offset_error [OF Inl] inside Cons assms show ?thesis
        by (auto simp: UpdateScope_def)
    next
      case (Inr off)
      then have nz: "buffer_channels buf \<noteq> 0" by (auto simp: scope_offset_def split: if_splits)
      show ?thesis
      proof (cases "int (length (data buf)) \<le> off")
        case True
        with Inr inside Cons assms show ?thesis by (auto simp: UpdateScope_def)
      next
        case False
        with Inr inside Cons assms
        have "UpdateScope S s = scope_loop S (buffer_channels buf) off s1"
          by (auto simp: UpdateScope_def)
        with Cons inside nz show ?thesis by auto
      qed
    qed
  qed
qed

lemma UpdateScope_result:
  assumes "scope_inv S s" and "UpdateScope S s = Some r"
  shows "extract_post S s r"
proof -
  from PruneScope_result [of s] obtain q1 where
    pr: "PruneScope s = (s\<lparr>delayq := q1\<rparr>, snd (PruneScope s))" and qt: "queue_tail q1 (delayq s)"
    by blast
  let ?s1 = "s\<lparr>delayq := q1\<rparr>"
  from assms(1) have inv1: "scope_inv S ?s1" by (simp add: scope_inv_delayq)
  from UpdateScope_cases [OF pr, of S] assms(2)
  consider "r = Inr ?s1" | "r = Inl DivisionByZero"
    | channels off where "scope_loop S channels off ?s1 = Some r"
    by auto
  then have "extract_post S ?s1 r"
  proof cases
    case 1
    with inv1 show ?thesis by (simp add: extract_post_refl)
  next
    case 2
    then show ?thesis by (simp add: extract_post_def)
  next
    case 3
    from scope_loop_result [OF 3 inv1] show ?thesis .
  qed
  then show ?thesis using qt by (rule extract_post_pruned)
qed

lemma UpdateScope_returns:
  assumes "\<forall>b\<in>set (delayq s). 0 \<le> buffer_channels b"
  shows "\<exists>r. UpdateScope S s = Some r"
proof -
  from PruneScope_result [of s] obtain q1 where
    pr: "PruneScope s = (s\<lparr>delayq := q1\<rparr>, snd (PruneScope s))" and sub: "set q1 \<subseteq> set (delayq s)"
    by blast
  from UpdateScope_cases [OF pr, of S]
  consider "UpdateScope S s = Some (Inr (s\<lparr>delayq := q1\<rparr>))" | "UpdateScope S s = Some (Inl DivisionByZero)"
    | buf rest off where "q1 = buf # rest" "buffer_channels buf \<noteq> 0"
        "UpdateScope S s = scope_loop S (buffer_channels buf) off (s\<lparr>delayq := q1\<rparr>)"
    by auto
  then show ?thesis
  proof cases
    case 3
    from 3(1) sub assms have "0 \<le> buffer_channels buf" by auto
    with 3(2) have "0 < buffer_channels buf" by simp
    from scope_loop_returns [OF this] 3(3) show ?thesis by simp
  qed auto
qed

lemma extract_post_inv:
  assumes "scope_inv S s" and "extract_post S s (Inr s')"
  shows "scope_inv S s'"
  using assms by (auto simp: scope_inv_def extract_post_def only_written_between_def)

lemma copy_scope_nth:
  assumes "\<forall>i\<in>set is. i < length cur" and "length m = length cur"
  shows "\<exists>m'. copy_scope is cur m = Inr m' \<and> length m' = length cur
             \<and> (\<forall>k<length cur. m' ! k = (if k \<in> set is then cur ! k else m ! k))"
  using assms
proof (induction "is" arbitrary: m)
  case Nil
  then show ?case by simp
next
  case (Cons i "is")
  from Cons.prems have i: "i < length cur" "i < length m" by simp_all
  from Cons.prems have "\<forall>i\<in>set is. i < length cur" "length (m[i := cur ! i]) = length cur"
    by simp_all
  from Cons.IH [OF this] obtain m' where
    m': "copy_scope is cur (m[i := cur ! i]) = Inr m'" "length m' = length cur"
    "\<forall>k<length cur. m' ! k = (if k \<in> set is then cur ! k else (m[i := cur ! i]) ! k)"
    by blast
  have "\<forall>k<length cur. m' ! k = (if k \<in> set (i # is) then cur ! k else m ! k)"
    using m'(3) i by (auto simp: nth_list_update)
  with m'(1,2) i show ?case by simp
qed

lemma copy_scope_whole:
  assumes "length cur = S" and "length m = S"
  shows "copy_scope [0..<S] cur m = Inr cur"
proof -
  from assms have "\<forall>i\<in>set [0..<S]. i < length cur" "length m = length cur" by simp_all
  from copy_scope_nth [OF this] obtain m' where
    m': "copy_scope [0..<S] cur m = Inr m'" "length m' = length cur"
    "\<forall>k<length cur. m' ! k = (if k \<in> set [0..<S] then cur ! k else m ! k)"
    by blast
  from m'(2,3) assms have "m' = cur" by (intro nth_equalityI) auto
  with m'(1) show ?thesis by simp
qed

lemma scope_result:
  assumes "scope_inv S s" and "scope S s = Some (Inr (s', ready))"
  shows "ready = m_scope s' \<and> length ready = S \<and> scope_inv S s'
       \<and> (\<exists>u. UpdateScope S s = Some (Inr u) \<and> m_scope u = m_scope s
            \<and> (if current_sample u = int S
               then ready = current_scope u \<and> s' = u\<lparr>m_scope := current_scope u, current_sample := 0\<rparr>
               else ready = m_scope s \<and> s' = u))"
proof -
  from assms(2) obtain u where u: "UpdateScope S s = Some (Inr u)"
    by (auto simp: scope_def split: option.splits sum.splits)
  from UpdateScope_result [OF assms(1) u] have post: "extract_post S s (Inr u)" .
  from extract_post_inv [OF assms(1) post] have invu: "scope_inv S u" .
  from post have mu: "m_scope u = m_scope s"
    by (simp add: extract_post_def only_written_between_def)
  show ?thesis
  proof (cases "current_sample u = int S")
    case True
    from invu have "copy_scope [0..<S] (current_scope u) (m_scope u) = Inr (current_scope u)"
      by (simp add: copy_scope_whole scope_inv_def)
    with True u assms(2)
    have "s' = u\<lparr>m_scope := current_scope u, current_sample := 0\<rparr>" "ready = current_scope u"
      by (auto simp: scope_def)
    with True u mu invu show ?thesis by (simp add: scope_inv_def)
  next
    case False
    with invu have "\<not> int S \<le> current_sample u" by (simp add: scope_inv_def)
    with u assms(2) have "s' = u" "ready = m_scope u" by (auto simp: scope_def)
    with False u mu invu show ?thesis by (simp add: scope_inv_def)
  qed
qed

section \<open>Extraction at concrete inputs\<close>

text \<open>
  Claim C1 at a head buffer without samples that lasts from 0 to 100, two channels,
  device position 40: \<^verbatim>\<open>frames\<close> is 0 and \<^verbatim>\<open>dur / frames\<close> divides by zero.
\<close>

theorem UpdateScope_zero_frames_divides_by_zero:
  "UpdateScope 8 (engine [chunk 0 100 2 []] 0 [0, 0, 0, 0, 0, 0, 0, 0] [0, 0, 0, 0, 0, 0, 0, 0] (playing_at 40))
     = Some (Inl DivisionByZero)"
  by (simp add: UpdateScope_def PruneScope_def etime_of_def buffer_channels_def
      scope_offset_def c_div_def)

text \<open>
  A head buffer of duration 0 never reaches the division: its end time is its start
  time and \<^verbatim>\<open>pos <= stime || pos >= etime\<close> returns first.
\<close>

lemma UpdateScope_zero_duration_head:
  assumes "PruneScope s = (s1, pos)" and "delayq s1 = buf # rest" and "duration buf = 0"
  shows "UpdateScope S s = Some (Inr s1)"
proof -
  from assms(3) have "etime_of buf = timestamp buf" by (simp add: etime_of_def)
  moreover have "pos \<le> timestamp buf \<or> timestamp buf \<le> pos" by (rule linear)
  ultimately show ?thesis using assms(1,2) by (auto simp: UpdateScope_def)
qed

text \<open>
  The division by zero is not particular to that input: it happens for every head buffer
  with fewer samples than channels whose time range strictly contains the device
  position.
\<close>

lemma UpdateScope_zero_frames:
  assumes "PruneScope s = (s1, pos)" and "delayq s1 = buf # rest"
    and "buffer_channels buf = 1 \<or> buffer_channels buf = 2"
    and "int (length (data buf)) < buffer_channels buf"
    and "timestamp buf < pos" and "pos < etime_of buf"
  shows "UpdateScope S s = Some (Inl DivisionByZero)"
proof -
  from assms(3,4) have "c_div (int (length (data buf))) (buffer_channels buf) = 0"
    by (auto simp: c_div_def)
  then have "scope_offset (buffer_channels buf) pos (timestamp buf) (duration buf)
               (int (length (data buf))) = Inl DivisionByZero"
    by (simp add: scope_offset_def)
  with assms show ?thesis by (auto simp: UpdateScope_def)
qed

text \<open>
  The example of the specification: buffer B (start 0, duration 0, no samples) ahead of
  buffer C (start 10, duration 50, 25 stereo frames holding the samples 100 to 149),
  device position 20. \<^verbatim>\<open>PruneScope\<close> removes B, whose end lies before 20, and the
  extraction starts in C at offset 10.
\<close>

lemma UpdateScope_degenerate_then_regular:
  "UpdateScope 8 (engine
       [chunk 0 0 2 [],
        chunk 10 50 2 (map of_nat [100..<150])]
       0 [0, 0, 0, 0, 0, 0, 0, 0] [0, 0, 0, 0, 0, 0, 0, 0] (playing_at 20))
     = Some (Inr (engine
       [chunk 10 50 2 (map of_nat [100..<150])]
       8 [110, 111, 112, 113, 114, 115, 116, 117] [0, 0, 0, 0, 0, 0, 0, 0] (playing_at 20)))"
  by code_simp

text \<open>
  Claim C2 at chunk A (start 0, duration 100, two channels, 100 samples, that is 50
  frames) and device position 41: the code multiplies by \<^verbatim>\<open>channels\<close> before it divides
  and starts at sample 41, the right channel of frame 20; the frame index floored first
  and then doubled is 40.
\<close>

theorem scope_offset_not_frame_aligned:
  "scope_offset 2 41 0 100 100 = Inr 41
   \<and> c_div 100 2 = 50 \<and> 2 * ((41 - 0) div (100 div 50)) = (40 :: int)"
  by (simp add: scope_offset_def c_div_def)

text \<open>
  Claim C3 at a mono buffer of four samples: the buffer is popped when \<^verbatim>\<open>i\<close> reaches
  \<^verbatim>\<open>sz - 1\<close>, so its last sample 14 is never copied although the build buffer has room.
\<close>

theorem UpdateScope_drops_last_mono_sample:
  "UpdateScope 8 (engine [chunk 0 100 1 [11, 12, 13, 14]] 0 [0, 0, 0, 0, 0, 0, 0, 0] [0, 0, 0, 0, 0, 0, 0, 0] (playing_at 1))
     = Some (Inr (engine [] 3 [11, 12, 13, 0, 0, 0, 0, 0] [0, 0, 0, 0, 0, 0, 0, 0] (playing_at 1)))"
  by code_simp

text \<open>
  Claim C4 at a stereo buffer of one frame followed by a buffer of six channels: the
  channel count is read from the first head only, and the six samples of the second
  buffer are copied into the build buffer.
\<close>

theorem UpdateScope_copies_six_channel_chunk:
  "UpdateScope 8 (engine [chunk 0 100 2 [1, 2], chunk 100 100 6 [21, 22, 23, 24, 25, 26]] 0
       [0, 0, 0, 0, 0, 0, 0, 0] [0, 0, 0, 0, 0, 0, 0, 0] (playing_at 1))
     = Some (Inr (engine [] 8 [1, 2, 21, 22, 23, 24, 25, 26] [0, 0, 0, 0, 0, 0, 0, 0] (playing_at 1)))"
  by code_simp

section \<open>The accessor and the lifecycle\<close>

lemma clear_loop_empty: "clear_loop q = []"
  by (induction q) simp_all

lemma ClearScopeQ_eq: "ClearScopeQ s = s\<lparr>delayq := []\<rparr>"
  by (simp add: ClearScopeQ_def clear_loop_empty)

lemma step_total_result:
  assumes "scope_inv S s" and "step S op s = Some r"
  shows "case r of Inl e \<Rightarrow> e \<noteq> ScopeWriteOutOfBounds \<and> e \<noteq> ScopeCopyOutOfBounds
                 | Inr s' \<Rightarrow> scope_inv S s'"
proof (cases op)
  case (OpNewBuffer buf)
  with assms show ?thesis by (auto simp: NewBuffer_def scope_inv_def)
next
  case OpPruneScope
  from PruneScope_result [of s] obtain q1 where "fst (PruneScope s) = s\<lparr>delayq := q1\<rparr>"
    by (metis fst_conv)
  with OpPruneScope assms show ?thesis by (auto simp: scope_inv_def)
next
  case OpUpdateScope
  with assms have post: "extract_post S s r" by (simp add: UpdateScope_result)
  show ?thesis
  proof (cases r)
    case (Inl e)
    with post show ?thesis by (auto simp: extract_post_def)
  next
    case (Inr s')
    with post extract_post_inv [OF assms(1)] show ?thesis by simp
  qed
next
  case OpScope
  show ?thesis
  proof (cases r)
    case (Inl e)
    with OpScope assms(2) consider "UpdateScope S s = Some (Inl e)"
      | u where "UpdateScope S s = Some (Inr u)" "int S \<le> current_sample u"
          "copy_scope [0..<S] (current_scope u) (m_scope u) = Inl e"
      by (auto simp: scope_def split: option.splits sum.splits if_splits)
    then show ?thesis
    proof cases
      case 1
      from UpdateScope_result [OF assms(1) 1] Inl show ?thesis by (auto simp: extract_post_def)
    next
      case 2
      from extract_post_inv [OF assms(1) UpdateScope_result [OF assms(1) 2(1)]]
      have "scope_inv S u" .
      then have "copy_scope [0..<S] (current_scope u) (m_scope u) = Inr (current_scope u)"
        by (simp add: copy_scope_whole scope_inv_def)
      with 2(3) show ?thesis by simp
    qed
  next
    case (Inr s')
    with OpScope assms(2) obtain ready where "scope S s = Some (Inr (s', ready))"
      by (auto split: option.splits sum.splits)
    from scope_result [OF assms(1) this] Inr show ?thesis by simp
  qed
next
  case OpClearScopeQ
  with assms show ?thesis by (auto simp: ClearScopeQ_eq scope_inv_def)
next
  case OpTimerEvent
  from PruneScope_result [of s] obtain q1 where "fst (PruneScope s) = s\<lparr>delayq := q1\<rparr>"
    by (metis fst_conv)
  with OpTimerEvent assms show ?thesis by (auto simp: scope_inv_def timerEvent_def)
next
  case (OpSeek seek_ok)
  with assms show ?thesis
    by (auto simp: seek_def ClearScopeQ_eq scope_inv_def split: option.splits)
next
  case OpStop
  with assms show ?thesis
    by (auto simp: stop_def reset_current_pipeline_def ClearScopeQ_eq scope_inv_def
        split: option.splits)
next
  case (OpPlay set_state_ok seek_ok offset)
  with assms show ?thesis
    by (auto simp: play_def seek_def reset_current_pipeline_def ClearScopeQ_eq scope_inv_def
        split: option.splits if_splits)
next
  case OpHandlePipelineError
  with assms show ?thesis
    by (auto simp: HandlePipelineError_def reset_current_pipeline_def ClearScopeQ_eq scope_inv_def
        split: option.splits)
next
  case OpEndOfStreamReached
  with assms show ?thesis
    by (auto simp: EndOfStreamReached_def reset_current_pipeline_def ClearScopeQ_eq scope_inv_def
        split: option.splits)
next
  case (OpLoad created)
  with assms show ?thesis
    by (auto simp: load_def reset_current_pipeline_def ClearScopeQ_eq scope_inv_def
        split: option.splits)
next
  case (OpPositionChanged pos)
  with assms show ?thesis
    by (auto simp: pipeline_position_changed_def scope_inv_def)
qed

lemma step_ready_buffer:
  assumes "scope_inv S s" and "step S op s = Some (Inr s')" and "op \<noteq> OpScope"
  shows "m_scope s' = m_scope s"
proof (cases op)
  case OpPruneScope
  from PruneScope_result [of s] obtain q1 where "fst (PruneScope s) = s\<lparr>delayq := q1\<rparr>"
    by (metis fst_conv)
  with OpPruneScope assms show ?thesis by auto
next
  case OpUpdateScope
  with assms have "extract_post S s (Inr s')" by (simp add: UpdateScope_result)
  then show ?thesis by (simp add: extract_post_def only_written_between_def)
next
  case OpScope
  with assms(3) show ?thesis by simp
next
  case OpTimerEvent
  from PruneScope_result [of s] obtain q1 where "fst (PruneScope s) = s\<lparr>delayq := q1\<rparr>"
    by (metis fst_conv)
  with OpTimerEvent assms show ?thesis by (auto simp: timerEvent_def)
qed (use assms in \<open>auto simp: NewBuffer_def ClearScopeQ_eq seek_def stop_def play_def load_def
      reset_current_pipeline_def HandlePipelineError_def EndOfStreamReached_def
      pipeline_position_changed_def split: option.splits if_splits\<close>)

lemma run_append:
  "run S (ops @ [op]) s =
     (case run S ops s of None \<Rightarrow> None | Some (Inl e) \<Rightarrow> Some (Inl e) | Some (Inr t) \<Rightarrow> step S op t)"
  by (induction ops arbitrary: s) (auto split: option.splits sum.splits)

text \<open>
  Claim C6. From a state whose scope buffers hold \<open>S\<close> samples and whose cursor lies
  between 0 and \<open>S\<close>, no operation of the engine writes the build buffer outside the
  indices 0 to \<open>S - 1\<close> (the model reports such a write as \<open>ScopeWriteOutOfBounds\<close>),
  and when the operation returns a state the cursor lies between 0 and \<open>S\<close> again. An
  extraction pass changes the build buffer only at the indices from the old cursor up to
  the new one, for every queue content.
\<close>

theorem step_keeps_cursor_in_bounds:
  assumes "scope_inv S s" and "step S op s = Some r"
  shows "(case r of Inl e \<Rightarrow> e \<noteq> ScopeWriteOutOfBounds \<and> e \<noteq> ScopeCopyOutOfBounds
                  | Inr s' \<Rightarrow> scope_inv S s')
       \<and> (op = OpUpdateScope \<longrightarrow> extract_post S s r)"
  using step_total_result [OF assms] UpdateScope_result [OF assms(1)] assms(2) by auto

theorem step_keeps_cursor_in_bounds_witness:
  "scope_inv 4 (engine [chunk 0 90 2 [1, 2, 3, 4, 5, 6]] 2 [9, 9, 0, 0] [0, 0, 0, 0] (playing_at 1))
   \<and> step 4 OpUpdateScope (engine [chunk 0 90 2 [1, 2, 3, 4, 5, 6]] 2 [9, 9, 0, 0] [0, 0, 0, 0] (playing_at 1))
       = Some (Inr (engine [chunk 0 90 2 [1, 2, 3, 4, 5, 6]] 4 [9, 9, 1, 2] [0, 0, 0, 0] (playing_at 1)))
   \<and> scope_inv 4 (engine [chunk 0 90 2 [1, 2, 3, 4, 5, 6]] 4 [9, 9, 1, 2] [0, 0, 0, 0] (playing_at 1))"
proof -
  let ?s = "engine [chunk 0 90 2 [1, 2, 3, 4, 5, 6]] 2 [9, 9, 0, 0] [0, 0, 0, 0] (playing_at 1)"
  let ?s' = "engine [chunk 0 90 2 [1, 2, 3, 4, 5, 6]] 4 [9, 9, 1, 2] [0, 0, 0, 0] (playing_at 1)"
  have inv: "scope_inv 4 ?s" by (simp add: scope_inv_def)
  have run: "step 4 OpUpdateScope ?s = Some (Inr ?s')" by code_simp
  from step_keeps_cursor_in_bounds [OF inv run] inv run show ?thesis by simp
qed

lemma step_fill:
  assumes "scope_inv S s" and "step S op s = Some (Inr s')"
  shows "m_scope s' = (case fill_of S op s of None \<Rightarrow> m_scope s | Some f \<Rightarrow> f)"
proof (cases "op = OpScope")
  case False
  then have "fill_of S op s = None" by (cases op) simp_all
  with step_ready_buffer [OF assms False] show ?thesis by simp
next
  case True
  with assms(2) obtain ready where sc: "scope S s = Some (Inr (s', ready))"
    by (auto split: option.splits sum.splits)
  from scope_result [OF assms(1) sc] obtain u where u: "UpdateScope S s = Some (Inr u)"
    and sw: "if current_sample u = int S
             then ready = current_scope u \<and> s' = u\<lparr>m_scope := current_scope u, current_sample := 0\<rparr>
             else ready = m_scope s \<and> s' = u"
    and r: "ready = m_scope s'"
    by blast
  show ?thesis
  proof (cases "current_sample u = int S")
    case fill: True
    with sw r have "m_scope s' = current_scope u" by auto
    with True u fill show ?thesis by simp
  next
    case nofill: False
    with sw r have "m_scope s' = m_scope s" by auto
    with True u nofill show ?thesis by simp
  qed
qed

lemma run_fills:
  assumes "scope_inv S s0" and "run S ops s0 = Some (Inr s)"
  shows "scope_inv S s \<and> m_scope s = last (m_scope s0 # fills S ops s0)"
  using assms
proof (induction ops arbitrary: s0)
  case Nil
  then show ?case by simp
next
  case (Cons op ops)
  from Cons.prems(2) obtain s1 where st: "step S op s0 = Some (Inr s1)"
    and rest: "run S ops s1 = Some (Inr s)"
    by (auto split: option.splits sum.splits)
  from step_total_result [OF Cons.prems(1) st] have inv1: "scope_inv S s1" by simp
  from Cons.IH [OF inv1 rest] have ih: "scope_inv S s" "m_scope s = last (m_scope s1 # fills S ops s1)"
    by simp_all
  from step_fill [OF Cons.prems(1) st]
  have "last (m_scope s0 # fills S (op # ops) s0) = last (m_scope s1 # fills S ops s1)"
    using st by (cases "fill_of S op s0") simp_all
  with ih show ?case by simp
qed

lemma fills_sound:
  assumes "x \<in> set (fills S ops s0)"
  shows "\<exists>ops1 ops2 t u. ops = ops1 @ OpScope # ops2 \<and> run S ops1 s0 = Some (Inr t)
           \<and> UpdateScope S t = Some (Inr u) \<and> current_sample u = int S \<and> x = current_scope u"
  using assms
proof (induction ops arbitrary: s0)
  case Nil
  then show ?case by simp
next
  case (Cons op ops)
  have "\<exists>s1. step S op s0 = Some (Inr s1)"
  proof (cases "step S op s0")
    case None
    with Cons.prems show ?thesis by simp
  next
    case (Some r)
    with Cons.prems show ?thesis by (cases r) simp_all
  qed
  then obtain s1 where st: "step S op s0 = Some (Inr s1)" by blast
  from Cons.prems st
  consider (here) "fill_of S op s0 = Some x" | (later) "x \<in> set (fills S ops s1)"
    by (auto split: option.splits)
  then show ?case
  proof cases
    case here
    then have op: "op = OpScope" by (cases op) simp_all
    with here obtain u where "UpdateScope S s0 = Some (Inr u)" "current_sample u = int S"
      "x = current_scope u"
      by (auto split: option.splits sum.splits if_splits)
    moreover have "op # ops = [] @ OpScope # ops" "run S [] s0 = Some (Inr s0)"
      using op by simp_all
    ultimately show ?thesis by blast
  next
    case later
    from Cons.IH [OF later] obtain ops1 ops2 t u where
      p: "ops = ops1 @ OpScope # ops2" "run S ops1 s1 = Some (Inr t)"
      "UpdateScope S t = Some (Inr u)" "current_sample u = int S" "x = current_scope u"
      by blast
    from p(1) have "op # ops = (op # ops1) @ OpScope # ops2" by simp
    moreover from p(2) st have "run S (op # ops1) s0 = Some (Inr t)" by simp
    ultimately show ?thesis using p(3,4,5) by blast
  qed
qed

lemma scope_returns:
  assumes "\<forall>b\<in>set (delayq s). 0 \<le> buffer_channels b"
  shows "\<exists>r. scope S s = Some r"
proof -
  from UpdateScope_returns [OF assms] obtain r where "UpdateScope S s = Some r" by blast
  then show ?thesis by (auto simp: scope_def split: sum.splits)
qed

text \<open>
  Claim C7. Let \<open>s\<close> be reached by the operations \<open>ops\<close> from a state \<open>s0\<close> with well-formed
  scope buffers. A call of \<^verbatim>\<open>scope\<close> in \<open>s\<close> returns whenever no queued buffer has a negative
  channel count. When it returns, it gives back the ready buffer of the state it leaves;
  it copied all \<open>S\<close> samples of the build buffer into it and set the cursor to 0 exactly
  when the extraction pass had brought the cursor to \<open>S\<close>, and left it untouched
  otherwise. The buffer returned is the most recent complete fill of this history (the
  build buffer at the last call of \<^verbatim>\<open>scope\<close>, this one included, whose extraction pass left
  the cursor at \<open>S\<close>), or the ready buffer of \<open>s0\<close> when the history has no complete fill.
\<close>

theorem scope_returns_complete_fill:
  assumes "scope_inv S s0" and "run S ops s0 = Some (Inr s)"
  shows "((\<forall>b\<in>set (delayq s). 0 \<le> buffer_channels b) \<longrightarrow> scope S s \<noteq> None)
       \<and> (\<forall>s' ready. scope S s = Some (Inr (s', ready)) \<longrightarrow>
            ready = m_scope s' \<and> length ready = S
            \<and> (\<exists>u. UpdateScope S s = Some (Inr u)
                 \<and> (if current_sample u = int S
                    then ready = current_scope u
                         \<and> s' = u\<lparr>m_scope := current_scope u, current_sample := 0\<rparr>
                    else ready = m_scope s \<and> s' = u))
            \<and> ready = last (m_scope s0 # fills S (ops @ [OpScope]) s0)
            \<and> (ready = m_scope s0
               \<or> (\<exists>ops1 ops2 t u. ops @ [OpScope] = ops1 @ OpScope # ops2
                     \<and> run S ops1 s0 = Some (Inr t) \<and> UpdateScope S t = Some (Inr u)
                     \<and> current_sample u = int S \<and> ready = current_scope u)))"
proof (intro conjI allI impI)
  assume "\<forall>b\<in>set (delayq s). 0 \<le> buffer_channels b"
  from scope_returns [OF this] show "scope S s \<noteq> None" by auto
next
  fix s' ready
  assume sc: "scope S s = Some (Inr (s', ready))"
  from run_fills [OF assms] have invs: "scope_inv S s" by simp
  note sr = scope_result [OF invs sc]
  from sr show "ready = m_scope s'" by simp
  from sr show "length ready = S" by (auto simp: scope_inv_def)
  from sr show "\<exists>u. UpdateScope S s = Some (Inr u)
                 \<and> (if current_sample u = int S
                    then ready = current_scope u
                         \<and> s' = u\<lparr>m_scope := current_scope u, current_sample := 0\<rparr>
                    else ready = m_scope s \<and> s' = u)"
    by blast
  have "run S (ops @ [OpScope]) s0 = Some (Inr s')"
    using assms(2) sc by (simp add: run_append)
  from run_fills [OF assms(1) this] sr
  show last: "ready = last (m_scope s0 # fills S (ops @ [OpScope]) s0)" by simp
  show "ready = m_scope s0
      \<or> (\<exists>ops1 ops2 t u. ops @ [OpScope] = ops1 @ OpScope # ops2
            \<and> run S ops1 s0 = Some (Inr t) \<and> UpdateScope S t = Some (Inr u)
            \<and> current_sample u = int S \<and> ready = current_scope u)"
  proof (cases "fills S (ops @ [OpScope]) s0 = []")
    case True
    with last show ?thesis by simp
  next
    case False
    with last have "ready \<in> set (fills S (ops @ [OpScope]) s0)" by simp
    from fills_sound [OF this] show ?thesis by blast
  qed
qed

theorem scope_returns_complete_fill_witness:
  "scope_inv 4 (engine [] 2 [9, 9, 0, 0] [0, 0, 0, 0] (playing_at 0))
   \<and> run 4 [OpNewBuffer (chunk 0 90 2 [1, 2, 3, 4, 5, 6]), OpPositionChanged 1, OpScope, OpStop]
         (engine [] 2 [9, 9, 0, 0] [0, 0, 0, 0] (playing_at 0))
       = Some (Inr \<lparr>delayq = [], current_sample = 0, current_scope = [9, 9, 1, 2],
                    m_scope = [9, 9, 1, 2], current_pipeline = None,
                    fadeout_pipeline = playing_at 1, fadeout_enabled = True\<rparr>)
   \<and> scope 4 \<lparr>delayq = [], current_sample = 0, current_scope = [9, 9, 1, 2],
                m_scope = [9, 9, 1, 2], current_pipeline = None,
                fadeout_pipeline = playing_at 1, fadeout_enabled = True\<rparr>
       = Some (Inr (\<lparr>delayq = [], current_sample = 0, current_scope = [9, 9, 1, 2],
                      m_scope = [9, 9, 1, 2], current_pipeline = None,
                      fadeout_pipeline = playing_at 1, fadeout_enabled = True\<rparr>, [9, 9, 1, 2]))
   \<and> fills 4 [OpNewBuffer (chunk 0 90 2 [1, 2, 3, 4, 5, 6]), OpPositionChanged 1, OpScope, OpStop,
               OpScope]
         (engine [] 2 [9, 9, 0, 0] [0, 0, 0, 0] (playing_at 0))
       = [[9, 9, 1, 2]]"
proof -
  let ?init = "engine [] 2 [9, 9, 0, 0] [0, 0, 0, 0] (playing_at 0)"
  let ?ops = "[OpNewBuffer (chunk 0 90 2 [1, 2, 3, 4, 5, 6]), OpPositionChanged 1, OpScope, OpStop]"
  let ?t = "\<lparr>delayq = [], current_sample = 0, current_scope = [9, 9, 1, 2],
             m_scope = [9, 9, 1, 2], current_pipeline = None,
             fadeout_pipeline = playing_at 1, fadeout_enabled = True\<rparr>"
  have inv: "scope_inv 4 ?init" by (simp add: scope_inv_def)
  have start: "run 4 ?ops ?init = Some (Inr ?t)" by code_simp
  have call: "scope 4 ?t = Some (Inr (?t, [9, 9, 1, 2]))" by code_simp
  have fs: "fills 4 (?ops @ [OpScope]) ?init = [[9, 9, 1, 2]]" by code_simp
  from scope_returns_complete_fill [OF inv start] inv start call fs show ?thesis by simp
qed

text \<open>
  Claim C8 as stated fails: \<^verbatim>\<open>stop\<close> and a successful \<^verbatim>\<open>seek\<close> leave the build cursor at 2
  and the build buffer as it was; a \<^verbatim>\<open>seek\<close> without a pipeline, or one that the pipeline
  refuses, leaves the buffer in the queue.
\<close>

theorem seek_stop_clear_queue_only_counterexample:
  "current_sample (stop (engine [chunk 0 90 2 [1, 2]] 2 [9, 9, 0, 0] [0, 0, 0, 0] (playing_at 1))) = 2
   \<and> current_scope (stop (engine [chunk 0 90 2 [1, 2]] 2 [9, 9, 0, 0] [0, 0, 0, 0] (playing_at 1))) = [9, 9, 0, 0]
   \<and> current_sample (seek True (engine [chunk 0 90 2 [1, 2]] 2 [9, 9, 0, 0] [0, 0, 0, 0] (playing_at 1))) = 2
   \<and> delayq (seek True (engine [chunk 0 90 2 [1, 2]] 2 [9, 9, 0, 0] [0, 0, 0, 0] None)) = [chunk 0 90 2 [1, 2]]
   \<and> delayq (seek False (engine [chunk 0 90 2 [1, 2]] 2 [9, 9, 0, 0] [0, 0, 0, 0] (playing_at 1))) = [chunk 0 90 2 [1, 2]]"
  by (simp add: stop_def seek_def ClearScopeQ_def)

lemma scope_loop_cursor:
  assumes "scope_loop S channels i s = Some (Inr s')"
  shows "current_sample s \<le> current_sample s'"
proof -
  have "\<forall>t. (Inr s' :: error + GstEngine) = Inr t \<longrightarrow> current_sample s \<le> current_sample t"
  proof (rule scope_loop.raw_induct
      [where P = "\<lambda>S channels i s r. \<forall>t. r = Inr t \<longrightarrow> current_sample s \<le> current_sample t",
        OF _ assms])
    fix loop S channels i s r
    assume IH: "\<And>S channels i s y. loop S channels i s = Some y \<Longrightarrow>
                  \<forall>t. y = Inr t \<longrightarrow> current_sample s \<le> current_sample t"
      and body: "(case delayq s of
        [] \<Rightarrow> Some (Inr s)
      | buf # rest \<Rightarrow>
          if current_sample s < int S \<and> i < int (length (data buf)) then
            (case copy_frame S channels (data buf) i 0 s of
               Inl e \<Rightarrow> Some (Inl e)
             | Inr s' \<Rightarrow>
                 if int (length (data buf)) - 1 \<le> i + channels
                 then loop S channels 0 (s'\<lparr>delayq := rest\<rparr>)
                 else loop S channels (i + channels) s')
          else Some (Inr s)) = Some r"
    show "\<forall>t. r = Inr t \<longrightarrow> current_sample s \<le> current_sample t"
    proof (intro allI impI)
      fix t
      assume r: "r = Inr t"
      show "current_sample s \<le> current_sample t"
      proof (cases "delayq s")
        case Nil
        with body r show ?thesis by simp
      next
        case (Cons buf rest)
        show ?thesis
        proof (cases "current_sample s < int S \<and> i < int (length (data buf))")
          case False
          with Cons body r show ?thesis by auto
        next
          case go: True
          show ?thesis
          proof (cases "copy_frame S channels (data buf) i 0 s")
            case (Inl e)
            with Cons go body r show ?thesis by simp
          next
            case (Inr s1)
            from copy_frame_result [OF Inr] have le1: "current_sample s \<le> current_sample s1"
              by (simp add: only_written_between_def)
            show ?thesis
            proof (cases "int (length (data buf)) - 1 \<le> i + channels")
              case True
              with Cons go Inr body have "loop S channels 0 (s1\<lparr>delayq := rest\<rparr>) = Some r" by simp
              from IH [OF this] r le1 show ?thesis by simp
            next
              case False
              with Cons go Inr body have "loop S channels (i + channels) s1 = Some r" by simp
              from IH [OF this] r le1 show ?thesis by simp
            qed
          qed
        qed
      qed
    qed
  qed
  then show ?thesis by simp
qed

lemma UpdateScope_cursor:
  assumes "UpdateScope S s = Some (Inr s')"
  shows "current_sample s \<le> current_sample s'"
proof -
  from PruneScope_result [of s] obtain q1 where
    pr: "PruneScope s = (s\<lparr>delayq := q1\<rparr>, snd (PruneScope s))" by blast
  from UpdateScope_cases [OF pr, of S] assms
  consider "s' = s\<lparr>delayq := q1\<rparr>"
    | channels off where "scope_loop S channels off (s\<lparr>delayq := q1\<rparr>) = Some (Inr s')"
    by auto
  then show ?thesis
  proof cases
    case 1
    then show ?thesis by simp
  next
    case 2
    from scope_loop_cursor [OF 2] show ?thesis by simp
  qed
qed

lemma step_cursor:
  assumes "step S op s = Some (Inr s')"
  shows "current_sample s \<le> current_sample s'
       \<or> ((op = OpScope \<or> (\<exists>set_state_ok seek_ok offset. op = OpPlay set_state_ok seek_ok offset))
           \<and> current_sample s' = 0)"
proof (cases op)
  case OpPruneScope
  from PruneScope_result [of s] obtain q1 where "fst (PruneScope s) = s\<lparr>delayq := q1\<rparr>"
    by (metis fst_conv)
  with OpPruneScope assms show ?thesis by auto
next
  case OpUpdateScope
  with assms UpdateScope_cursor show ?thesis by simp
next
  case OpScope
  with assms obtain u where u: "UpdateScope S s = Some (Inr u)"
    and s': "s' = u \<or> current_sample s' = 0"
    by (auto simp: scope_def split: option.splits sum.splits if_splits)
  from UpdateScope_cursor [OF u] s' OpScope show ?thesis by auto
next
  case OpTimerEvent
  from PruneScope_result [of s] obtain q1 where "fst (PruneScope s) = s\<lparr>delayq := q1\<rparr>"
    by (metis fst_conv)
  with OpTimerEvent assms show ?thesis by (auto simp: timerEvent_def)
next
  case (OpPlay set_state_ok seek_ok offset)
  with assms show ?thesis
    by (auto simp: play_def seek_def reset_current_pipeline_def ClearScopeQ_eq
        split: option.splits if_splits)
qed (use assms in \<open>auto simp: NewBuffer_def ClearScopeQ_eq seek_def stop_def load_def
      reset_current_pipeline_def HandlePipelineError_def EndOfStreamReached_def
      pipeline_position_changed_def split: option.splits if_splits\<close>)

text \<open>
  Claim C8, as the code has it. \<^verbatim>\<open>stop\<close> empties the queue when fade-out is enabled or a
  current pipeline exists, \<^verbatim>\<open>seek\<close> empties it when a pipeline exists and its seek
  succeeds, and changes nothing otherwise. Neither touches the build cursor, the build
  buffer or the ready buffer. Of all operations of the engine only \<^verbatim>\<open>play\<close> and \<^verbatim>\<open>scope\<close>
  (the swap of a full buffer) move the build cursor backwards, and they set it to 0.
\<close>

theorem seek_stop_drain_queue:
  "(fadeout_enabled s \<or> current_pipeline s \<noteq> None \<longrightarrow> delayq (stop s) = [])
   \<and> (current_pipeline s \<noteq> None \<longrightarrow> delayq (seek True s) = [])
   \<and> (current_pipeline s = None \<or> \<not> seek_ok \<longrightarrow> seek seek_ok s = s)
   \<and> current_sample (stop s) = current_sample s \<and> current_scope (stop s) = current_scope s
   \<and> m_scope (stop s) = m_scope s
   \<and> current_sample (seek seek_ok s) = current_sample s
   \<and> current_scope (seek seek_ok s) = current_scope s
   \<and> m_scope (seek seek_ok s) = m_scope s
   \<and> (\<forall>op s'. step S op s = Some (Inr s') \<and> current_sample s' < current_sample s \<longrightarrow>
         (op = OpScope \<or> (\<exists>set_state_ok seek_ok offset. op = OpPlay set_state_ok seek_ok offset))
         \<and> current_sample s' = 0)"
proof -
  have "(op = OpScope \<or> (\<exists>set_state_ok seek_ok offset. op = OpPlay set_state_ok seek_ok offset))
         \<and> current_sample s' = 0"
    if "step S op s = Some (Inr s')" and "current_sample s' < current_sample s" for op s'
    using step_cursor [OF that(1)] that(2) by auto
  then show ?thesis
    by (auto simp: stop_def seek_def reset_current_pipeline_def ClearScopeQ_eq split: option.splits)
qed

theorem seek_stop_drain_queue_witness:
  "fadeout_enabled (engine [chunk 0 90 2 [1, 2]] 2 [9, 9, 0, 0] [0, 0, 0, 0] (playing_at 1))
   \<and> current_pipeline (engine [chunk 0 90 2 [1, 2]] 2 [9, 9, 0, 0] [0, 0, 0, 0] (playing_at 1)) \<noteq> None
   \<and> stop (engine [chunk 0 90 2 [1, 2]] 2 [9, 9, 0, 0] [0, 0, 0, 0] (playing_at 1))
       = \<lparr>delayq = [], current_sample = 2, current_scope = [9, 9, 0, 0], m_scope = [0, 0, 0, 0],
          current_pipeline = None, fadeout_pipeline = playing_at 1, fadeout_enabled = True\<rparr>
   \<and> seek True (engine [chunk 0 90 2 [1, 2]] 2 [9, 9, 0, 0] [0, 0, 0, 0] (playing_at 1))
       = engine [] 2 [9, 9, 0, 0] [0, 0, 0, 0] (playing_at 1)
   \<and> seek True (engine [chunk 0 90 2 [1, 2]] 2 [9, 9, 0, 0] [0, 0, 0, 0] None)
       = engine [chunk 0 90 2 [1, 2]] 2 [9, 9, 0, 0] [0, 0, 0, 0] None
   \<and> step 4 (OpPlay True False 0) (engine [chunk 0 90 2 [1, 2]] 2 [9, 9, 0, 0] [0, 0, 0, 0] (playing_at 1))
       = Some (Inr (engine [chunk 0 90 2 [1, 2]] 0 [9, 9, 0, 0] [0, 0, 0, 0] (playing_at 1)))
   \<and> (0 :: int) < 2"
proof -
  let ?s = "engine [chunk 0 90 2 [1, 2]] 2 [9, 9, 0, 0] [0, 0, 0, 0] (playing_at 1)"
  let ?n = "engine [chunk 0 90 2 [1, 2]] 2 [9, 9, 0, 0] [0, 0, 0, 0] None"
  have pl: "step 4 (OpPlay True False 0) ?s
              = Some (Inr (engine [chunk 0 90 2 [1, 2]] 0 [9, 9, 0, 0] [0, 0, 0, 0] (playing_at 1)))"
    by (simp add: play_def)
  from seek_stop_drain_queue [of ?s True 4] seek_stop_drain_queue [of ?n True 4] pl
  show ?thesis by (simp add: stop_def seek_def ClearScopeQ_def)
qed

text \<open>
  The extraction pass copies nothing when, after pruning, the queue is empty, the head
  has more than two channels, or the device position is not strictly inside the head.
\<close>

lemma UpdateScope_no_extraction:
  assumes "PruneScope s = (s1, pos)"
    and "delayq s1 = [] \<or> 2 < buffer_channels (hd (delayq s1))
         \<or> pos \<le> timestamp (hd (delayq s1)) \<or> etime_of (hd (delayq s1)) \<le> pos"
  shows "UpdateScope S s = Some (Inr s1) \<and> current_sample s1 = current_sample s"
proof -
  from PruneScope_result [of s] assms(1) have "current_sample s1 = current_sample s"
    by auto
  moreover from assms have "UpdateScope S s = Some (Inr s1)"
    by (cases "delayq s1") (auto simp: UpdateScope_def)
  ultimately show ?thesis by simp
qed

text \<open>
  Claim C9 as stated fails. With \<open>S = 4\<close>, the cursor at 2 and one stereo buffer of six
  samples that covers the device position, the first call of \<^verbatim>\<open>scope\<close> returns
  9, 9, 1, 2 and leaves the queue as it was; the second call, with the same queue and
  the same position, extracts again from the buffer and returns 1, 2, 3, 4.
\<close>

theorem scope_not_idempotent_counterexample:
  "scope 4 (engine [chunk 0 90 2 [1, 2, 3, 4, 5, 6]] 2 [9, 9, 0, 0] [0, 0, 0, 0] (playing_at 1))
     = Some (Inr (engine [chunk 0 90 2 [1, 2, 3, 4, 5, 6]] 0 [9, 9, 1, 2] [9, 9, 1, 2] (playing_at 1),
                  [9, 9, 1, 2]))
   \<and> scope 4 (engine [chunk 0 90 2 [1, 2, 3, 4, 5, 6]] 0 [9, 9, 1, 2] [9, 9, 1, 2] (playing_at 1))
     = Some (Inr (engine [chunk 0 90 2 [1, 2, 3, 4, 5, 6]] 0 [1, 2, 3, 4] [1, 2, 3, 4] (playing_at 1),
                  [1, 2, 3, 4]))"
  by code_simp

text \<open>
  Claim C9, as the code has it. Every call of \<^verbatim>\<open>scope\<close> runs an extraction pass of its
  own. After a call that returned, a repeated call returns whenever no queued buffer has
  a negative channel count; it gives back the same ready buffer when its extraction pass
  leaves the build cursor below \<open>S\<close>, however far the pass moves the cursor, and the
  build buffer it has just completed when the pass brings the cursor to \<open>S\<close>. When the
  pass fails, so does the call.
\<close>

theorem scope_repeated_same_buffer:
  assumes "scope_inv S s" and "scope S s = Some (Inr (s1, ready))"
  shows "((\<forall>b\<in>set (delayq s). 0 \<le> buffer_channels b) \<longrightarrow> scope S s1 \<noteq> None)
       \<and> (\<forall>u. UpdateScope S s1 = Some (Inr u) \<longrightarrow>
            (if current_sample u < int S
             then scope S s1 = Some (Inr (u, ready))
             else scope S s1 = Some (Inr (u\<lparr>m_scope := current_scope u, current_sample := 0\<rparr>,
                                          current_scope u))))
       \<and> (\<forall>e. UpdateScope S s1 = Some (Inl e) \<longrightarrow> scope S s1 = Some (Inl e))"
proof (intro conjI allI impI)
  from scope_result [OF assms] obtain u0 where
    r: "ready = m_scope s1" and inv1: "scope_inv S s1"
    and u0: "UpdateScope S s = Some (Inr u0)"
    and sw: "if current_sample u0 = int S
             then ready = current_scope u0 \<and> s1 = u0\<lparr>m_scope := current_scope u0, current_sample := 0\<rparr>
             else ready = m_scope s \<and> s1 = u0"
    by blast
  {
    assume nonneg: "\<forall>b\<in>set (delayq s). 0 \<le> buffer_channels b"
    from UpdateScope_result [OF assms(1) u0] have "queue_tail (delayq u0) (delayq s)"
      by (simp add: extract_post_def)
    then have "set (delayq u0) \<subseteq> set (delayq s)" by (auto simp: queue_tail_iff)
    moreover from sw have "delayq s1 = delayq u0" by (auto split: if_splits)
    ultimately have "\<forall>b\<in>set (delayq s1). 0 \<le> buffer_channels b" using nonneg by auto
    from scope_returns [OF this] show "scope S s1 \<noteq> None" by auto
  }
  {
    fix u
    assume u: "UpdateScope S s1 = Some (Inr u)"
    from UpdateScope_result [OF inv1 u] have post: "extract_post S s1 (Inr u)" .
    then have mu: "m_scope u = m_scope s1" by (simp add: extract_post_def only_written_between_def)
    from extract_post_inv [OF inv1 post] have invu: "scope_inv S u" .
    show "if current_sample u < int S
          then scope S s1 = Some (Inr (u, ready))
          else scope S s1 = Some (Inr (u\<lparr>m_scope := current_scope u, current_sample := 0\<rparr>,
                                       current_scope u))"
    proof (cases "current_sample u < int S")
      case True
      with u mu r show ?thesis by (simp add: scope_def)
    next
      case False
      from invu have "copy_scope [0..<S] (current_scope u) (m_scope u) = Inr (current_scope u)"
        by (simp add: copy_scope_whole scope_inv_def)
      with False u show ?thesis by (simp add: scope_def)
    qed
  }
  {
    fix e
    assume "UpdateScope S s1 = Some (Inl e)"
    then show "scope S s1 = Some (Inl e)" by (simp add: scope_def)
  }
qed

theorem scope_repeated_same_buffer_witness:
  "scope_inv 8 (engine [chunk 0 90 2 [1, 2], chunk 0 90 2 [3, 4, 5, 6, 7, 8]] 6
                  [9, 9, 9, 9, 9, 9, 0, 0] [0, 0, 0, 0, 0, 0, 0, 0] (playing_at 1))
   \<and> scope 8 (engine [chunk 0 90 2 [1, 2], chunk 0 90 2 [3, 4, 5, 6, 7, 8]] 6
                  [9, 9, 9, 9, 9, 9, 0, 0] [0, 0, 0, 0, 0, 0, 0, 0] (playing_at 1))
       = Some (Inr (engine [chunk 0 90 2 [3, 4, 5, 6, 7, 8]] 0
                      [9, 9, 9, 9, 9, 9, 1, 2] [9, 9, 9, 9, 9, 9, 1, 2] (playing_at 1),
                    [9, 9, 9, 9, 9, 9, 1, 2]))
   \<and> UpdateScope 8 (engine [chunk 0 90 2 [3, 4, 5, 6, 7, 8]] 0
                      [9, 9, 9, 9, 9, 9, 1, 2] [9, 9, 9, 9, 9, 9, 1, 2] (playing_at 1))
       = Some (Inr (engine [] 6 [3, 4, 5, 6, 7, 8, 1, 2] [9, 9, 9, 9, 9, 9, 1, 2] (playing_at 1)))
   \<and> scope 8 (engine [chunk 0 90 2 [3, 4, 5, 6, 7, 8]] 0
                      [9, 9, 9, 9, 9, 9, 1, 2] [9, 9, 9, 9, 9, 9, 1, 2] (playing_at 1))
       = Some (Inr (engine [] 6 [3, 4, 5, 6, 7, 8, 1, 2] [9, 9, 9, 9, 9, 9, 1, 2] (playing_at 1),
                    [9, 9, 9, 9, 9, 9, 1, 2]))"
proof -
  let ?s = "engine [chunk 0 90 2 [1, 2], chunk 0 90 2 [3, 4, 5, 6, 7, 8]] 6
              [9, 9, 9, 9, 9, 9, 0, 0] [0, 0, 0, 0, 0, 0, 0, 0] (playing_at 1)"
  let ?t = "engine [chunk 0 90 2 [3, 4, 5, 6, 7, 8]] 0
              [9, 9, 9, 9, 9, 9, 1, 2] [9, 9, 9, 9, 9, 9, 1, 2] (playing_at 1)"
  let ?u = "engine [] 6 [3, 4, 5, 6, 7, 8, 1, 2] [9, 9, 9, 9, 9, 9, 1, 2] (playing_at 1)"
  have inv: "scope_inv 8 ?s" by (simp add: scope_inv_def)
  have first: "scope 8 ?s = Some (Inr (?t, [9, 9, 9, 9, 9, 9, 1, 2]))" by code_simp
  have pass: "UpdateScope 8 ?t = Some (Inr ?u)" by code_simp
  from scope_repeated_same_buffer [OF inv first] pass
  have "scope 8 ?t = Some (Inr (?u, [9, 9, 9, 9, 9, 9, 1, 2]))" by simp
  with inv first pass show ?thesis by simp
qed

end
